theory Spec2Isabelle
  imports Main "HOL-Library.Word"
begin

unbundle bit_operations_syntax

section \<open>simplemli: Message Length Indicator encoder and decoder\<close>

text \<open>
  A shallow embedding of \<^verbatim>\<open>mli.go\<close>. Go's \<^verbatim>\<open>byte\<close> is an 8-bit word,
  \<^verbatim>\<open>uint16\<close> and \<^verbatim>\<open>uint32\<close> are 16- and 32-bit words and \<^verbatim>\<open>int\<close> is taken as
  the 64-bit signed integer of the usual 64-bit targets: a 64-bit word read with \<open>sint\<close> and
  compared with \<open><s\<close>. A Go string and a byte slice are lists of bytes, so that
  \<^verbatim>\<open>unsafeByteToStr\<close> is the identity. A function returning \<^verbatim>\<open>(x, error)\<close> returns the
  pair of the value and an optional error, \<open>None\<close> for \<^verbatim>\<open>nil\<close>. The pointer argument of
  \<^verbatim>\<open>Decode\<close> is taken as pointing to a slice; the model receives that slice.
\<close>

type_synonym byte = "8 word"
type_synonym uint16 = "16 word"
type_synonym uint32 = "32 word"
type_synonym uint64 = "64 word"
type_synonym goint = "64 word"

subsection \<open>Errors\<close>

text \<open>
  \<^verbatim>\<open>hex.InvalidByteError\<close> and \<^verbatim>\<open>hex.ErrLength\<close> of encoding/hex, the two causes
  \<^verbatim>\<open>strconv.ErrSyntax\<close> and \<^verbatim>\<open>strconv.ErrRange\<close> of a \<^verbatim>\<open>strconv.NumError\<close>, and the errors
  of the package itself: its two exported values and the four messages it builds with
  \<^verbatim>\<open>fmt.Errorf\<close>, three of which wrap the cause.
\<close>

datatype hex_error = InvalidByteError byte | HexErrLength

datatype num_error = ErrSyntax | ErrRange

datatype error =
    ErrByteSize
  | ErrLength
  | ErrHexToInt num_error
  | ErrStrToInt num_error
  | ErrLenToHex hex_error
  | ErrInvalidType

subsection \<open>Constants\<close>

definition Size2I :: "'a::numeral" where [simp]: "Size2I = 2"
definition Size2E :: "'a::numeral" where [simp]: "Size2E = 2"
definition Size4I :: "'a::numeral" where [simp]: "Size4I = 4"
definition Size4E :: "'a::numeral" where [simp]: "Size4E = 4"
definition Size2EE :: "'a::numeral" where [simp]: "Size2EE = 2"
definition Size2BCD2 :: "'a::numeral" where [simp]: "Size2BCD2 = 4"
definition SizeA4E :: "'a::numeral" where [simp]: "SizeA4E = 4"

definition MLI2I :: string where [simp]: "MLI2I = ''2I''"
definition MLI2E :: string where [simp]: "MLI2E = ''2E''"
definition MLI4I :: string where [simp]: "MLI4I = ''4I''"
definition MLI4E :: string where [simp]: "MLI4E = ''4E''"
definition MLI2EE :: string where [simp]: "MLI2EE = ''2EE''"
definition MLI2BCD2 :: string where [simp]: "MLI2BCD2 = ''2BCD2''"
definition MLIA4E :: string where [simp]: "MLIA4E = ''A4E''"

definition empty :: "byte list" where [simp]: "empty = []"

subsection \<open>The standard library functions the package calls\<close>

text \<open>
  \<^verbatim>\<open>binary.BigEndian\<close>: \<^verbatim>\<open>Uint16\<close> and \<^verbatim>\<open>Uint32\<close> read the first two and four bytes of a
  slice (and panic on a shorter one: \<^verbatim>\<open>Decode\<close> calls them after its length check only),
  \<^verbatim>\<open>PutUint16\<close> and \<^verbatim>\<open>PutUint32\<close> fill a slice of that length.
\<close>

definition Uint16 :: "byte list \<Rightarrow> uint16" where
  "Uint16 b = ucast (b ! 1) OR push_bit 8 (ucast (b ! 0))"

definition Uint32 :: "byte list \<Rightarrow> uint32" where
  "Uint32 b = ucast (b ! 3) OR push_bit 8 (ucast (b ! 2))
     OR push_bit 16 (ucast (b ! 1)) OR push_bit 24 (ucast (b ! 0))"

definition PutUint16 :: "uint16 \<Rightarrow> byte list" where
  "PutUint16 v = [ucast (drop_bit 8 v), ucast v]"

definition PutUint32 :: "uint32 \<Rightarrow> byte list" where
  "PutUint32 v = [ucast (drop_bit 24 v), ucast (drop_bit 16 v), ucast (drop_bit 8 v), ucast v]"

text \<open>
  encoding/hex. \<^verbatim>\<open>EncodeToString\<close> writes two lower-case digits of \<^verbatim>\<open>hextable\<close> for every
  byte. \<^verbatim>\<open>DecodeString\<close> reads two digits at a time through \<^verbatim>\<open>reverseHexTable\<close>, which
  maps every byte that is no hexadecimal digit to \<^verbatim>\<open>0xff\<close>; it returns the bytes decoded
  before the first error together with that error.
\<close>

definition hextable :: "byte list" where
  "hextable = [0x30, 0x31, 0x32, 0x33, 0x34, 0x35, 0x36, 0x37, 0x38, 0x39,
               0x61, 0x62, 0x63, 0x64, 0x65, 0x66]"

fun EncodeToString :: "byte list \<Rightarrow> byte list" where
  "EncodeToString [] = []"
| "EncodeToString (v # src) =
     hextable ! unat (drop_bit 4 v) # hextable ! unat (v AND 0x0f) # EncodeToString src"

definition reverseHexTable :: "byte \<Rightarrow> byte" where
  "reverseHexTable c =
     (if 0x30 \<le> c \<and> c \<le> 0x39 then c - 0x30
      else if 0x41 \<le> c \<and> c \<le> 0x46 then c - 0x41 + 10
      else if 0x61 \<le> c \<and> c \<le> 0x66 then c - 0x61 + 10
      else 0xff)"

fun DecodeString :: "byte list \<Rightarrow> byte list \<times> hex_error option" where
  "DecodeString (p # q # src) =
     (let a = reverseHexTable p; b = reverseHexTable q in
      if a > 0x0f then ([], Some (InvalidByteError p))
      else if b > 0x0f then ([], Some (InvalidByteError q))
      else (case DecodeString src of (dst, err) \<Rightarrow> ((push_bit 4 a OR b) # dst, err)))"
| "DecodeString [p] =
     (if reverseHexTable p > 0x0f then ([], Some (InvalidByteError p))
      else ([], Some HexErrLength))"
| "DecodeString [] = ([], None)"

text \<open>
  fmt. \<^verbatim>\<open>Sprintf("%04d", n)\<close> writes the decimal digits of \<open>n\<close>, padded with zeros
  on the left to four characters, the sign of a negative \<open>n\<close> counting as one of them.
  \<^verbatim>\<open>Sprintf("%X", s)\<close> of a string writes two upper-case hexadecimal digits for every
  byte of \<open>s\<close>.
\<close>

function digits10 :: "nat \<Rightarrow> byte list" where
  "digits10 u = (if u < 10 then [0x30 + of_nat u]
                 else digits10 (u div 10) @ [0x30 + of_nat (u mod 10)])"
  by pat_completeness auto
termination
  by (relation "measure (\<lambda>u. u)") auto

definition zero_pad :: "nat \<Rightarrow> byte list \<Rightarrow> byte list" where
  "zero_pad prec buf = replicate (prec - length buf) 0x30 @ buf"

definition Sprintf_04d :: "goint \<Rightarrow> byte list" where
  "Sprintf_04d a =
     (if a <s 0 then 0x2d # zero_pad 3 (digits10 (nat (- sint a)))
      else zero_pad 4 (digits10 (nat (sint a))))"

definition udigits :: "byte list" where
  "udigits = [0x30, 0x31, 0x32, 0x33, 0x34, 0x35, 0x36, 0x37, 0x38, 0x39,
              0x41, 0x42, 0x43, 0x44, 0x45, 0x46]"

fun Sprintf_X :: "byte list \<Rightarrow> byte list" where
  "Sprintf_X [] = []"
| "Sprintf_X (c # s) =
     udigits ! unat (drop_bit 4 c) # udigits ! unat (c AND 0x0f) # Sprintf_X s"

text \<open>
  \<^verbatim>\<open>strconv.Atoi\<close>. A string of 1 to 18 bytes takes the fast path: an optional sign, then
  digits only, accumulated in an \<^verbatim>\<open>int\<close>. Any other string goes through
  \<^verbatim>\<open>ParseInt(s, 10, 0)\<close>, which reads the digits into a \<^verbatim>\<open>uint64\<close> and reports a value
  out of range.
\<close>

fun atoi_loop :: "byte list \<Rightarrow> goint \<Rightarrow> goint option" where
  "atoi_loop [] n = Some n"
| "atoi_loop (ch # s) n =
     (if ch - 0x30 > 9 then None else atoi_loop s (n * 10 + ucast (ch - 0x30)))"

fun parseuint_loop :: "byte list \<Rightarrow> nat \<Rightarrow> num_error + nat" where
  "parseuint_loop [] n = Inr n"
| "parseuint_loop (c # s) n =
     (if \<not> (0x30 \<le> c \<and> c \<le> 0x39) then Inl ErrSyntax
      else if n \<ge> (2 ^ 64 - 1) div 10 + 1 then Inl ErrRange
      else if n * 10 + unat (c - 0x30) \<ge> 2 ^ 64 then Inl ErrRange
      else parseuint_loop s (n * 10 + unat (c - 0x30)))"

definition ParseInt :: "byte list \<Rightarrow> goint \<times> num_error option" where
  "ParseInt s0 =
     (if s0 = [] then (0, Some ErrSyntax)
      else let neg = (hd s0 = 0x2d);
               s = (if hd s0 = 0x2b \<or> hd s0 = 0x2d then tl s0 else s0) in
        if s = [] then (0, Some ErrSyntax)
        else (case parseuint_loop s 0 of
                Inl ErrSyntax \<Rightarrow> (0, Some ErrSyntax)
              | Inl ErrRange \<Rightarrow>
                  (if neg then (- (2 ^ 63), Some ErrRange) else (2 ^ 63 - 1, Some ErrRange))
              | Inr un \<Rightarrow>
                  (if \<not> neg \<and> un \<ge> 2 ^ 63 then (2 ^ 63 - 1, Some ErrRange)
                   else if neg \<and> un > 2 ^ 63 then (- (2 ^ 63), Some ErrRange)
                   else (if neg then - of_nat un else of_nat un, None))))"

definition Atoi :: "byte list \<Rightarrow> goint \<times> num_error option" where
  "Atoi s0 =
     (if 0 < length s0 \<and> length s0 < 19 then
        (let signed = (hd s0 = 0x2d \<or> hd s0 = 0x2b);
             s = (if signed then tl s0 else s0) in
         if signed \<and> length s < 1 then (0, Some ErrSyntax)
         else (case atoi_loop s 0 of
                 None \<Rightarrow> (0, Some ErrSyntax)
               | Some n \<Rightarrow> (if hd s0 = 0x2d then - n else n, None)))
      else ParseInt s0)"

text \<open>\<^verbatim>\<open>bytes.Count\<close> with a separator of one byte counts the occurrences of that byte.\<close>

definition Count :: "byte list \<Rightarrow> byte \<Rightarrow> nat" where
  "Count s c = length (filter (\<lambda>x. x = c) s)"

subsection \<open>Decode\<close>

definition unsafeByteToStr :: "byte list \<Rightarrow> byte list" where
  "unsafeByteToStr b = b"

definition Decode :: "string \<Rightarrow> byte list \<Rightarrow> goint \<times> error option" where
  "Decode key b =
     (if key = MLI2I then
        (if length b \<noteq> Size2I then (0, Some ErrByteSize)
         else let n = (ucast (Uint16 b) :: goint) in
           if n = 0 then (0, None)
           else let n = n - Size2I in
             if n <s 0 then (0, Some ErrLength) else (n, None))
      else if key = MLI2E then
        (if length b \<noteq> Size2E then (0, Some ErrByteSize)
         else let n = (ucast (Uint16 b) :: goint) in (n, None))
      else if key = MLI4I then
        (if length b \<noteq> Size4I then (0, Some ErrByteSize)
         else let n = (ucast (Uint32 b) :: goint) in
           if n = 0 then (0, None)
           else let n = n - Size4I in
             if n <s 0 then (0, Some ErrLength) else (n, None))
      else if key = MLI4E then
        (if length b \<noteq> Size4E then (0, Some ErrByteSize)
         else let n = (ucast (Uint32 b) :: goint) in (n, None))
      else if key = MLI2EE then
        (if length b \<noteq> Size2EE then (0, Some ErrByteSize)
         else let n = (ucast (Uint16 b) :: goint) + 2 in (n, None))
      else if key = MLI2BCD2 then
        (if length b \<noteq> Size2BCD2 then (0, Some ErrByteSize)
         else (case Atoi (EncodeToString (take 2 (drop 2 b))) of
                 (n, Some err) \<Rightarrow> (0, Some (ErrHexToInt err))
               | (n, None) \<Rightarrow>
                   if n = 0 then (0, None)
                   else let n = n - Size2BCD2 in
                     if n <s 0 then (0, Some ErrLength) else (n, None)))
      else if key = MLIA4E then
        (if length b \<noteq> SizeA4E then (0, Some ErrByteSize)
         else if Count b 0x30 = length b then (0, None)
         else (case Atoi (unsafeByteToStr b) of
                 (n, Some err) \<Rightarrow> (0, Some (ErrStrToInt err))
               | (n, None) \<Rightarrow> (n, None)))
      else (0, Some ErrInvalidType))"

subsection \<open>Encode\<close>

definition Encode :: "string \<Rightarrow> goint \<Rightarrow> byte list \<times> error option" where
  "Encode key length' =
     (if length' <s 0 then (empty, Some ErrLength)
      else if key = MLI2I then (PutUint16 (ucast (length' + Size2I)), None)
      else if key = MLI2E then (PutUint16 (ucast length'), None)
      else if key = MLI4I then (PutUint32 (ucast (length' + Size4I)), None)
      else if key = MLI4E then (PutUint32 (ucast length'), None)
      else if key = MLI2EE then (PutUint16 (ucast (length' - Size2EE)), None)
      else if key = MLI2BCD2 then
        (case DecodeString (Sprintf_04d (length' + Size2BCD2)) of
           (h, Some err) \<Rightarrow> (empty, Some (ErrLenToHex err))
         | (h, None) \<Rightarrow> ([0, 0] @ h, None))
      else if key = MLIA4E then
        (let s = Sprintf_04d length';
             s = Sprintf_X s in
         case DecodeString s of (b, _) \<Rightarrow> (b, None))
      else (empty, Some ErrInvalidType))"

subsection \<open>The vocabulary of the specification\<close>

text \<open>
  The seven selectors and the fixed width of each, as the size constants give it.
\<close>

definition variants :: "string list" where
  "variants = [MLI2I, MLI2E, MLI4I, MLI4E, MLI2EE, MLI2BCD2, MLIA4E]"

definition width :: "string \<Rightarrow> nat" where
  "width key =
     (if key = MLI2I then Size2I else if key = MLI2E then Size2E
      else if key = MLI4I then Size4I else if key = MLI4E then Size4E
      else if key = MLI2EE then Size2EE else if key = MLI2BCD2 then Size2BCD2
      else if key = MLIA4E then SizeA4E else 0)"

text \<open>
  The value of a byte sequence read as a big-endian unsigned integer.
\<close>

definition be_value :: "byte list \<Rightarrow> int" where
  "be_value b = foldl (\<lambda>a x. 256 * a + uint x) 0 b"

text \<open>
  The ASCII decimal digits, and the number a sequence of them denotes in base 10.
\<close>

definition is_digit :: "byte \<Rightarrow> bool" where
  "is_digit c = (0x30 \<le> c \<and> c \<le> 0x39)"

definition decimal_value :: "byte list \<Rightarrow> int" where
  "decimal_value s = foldl (\<lambda>a c. 10 * a + (uint c - 48)) 0 s"

text \<open>
  The lengths a selector can represent: the length is not negative and the value written
  for it fits the field, 16 or 32 bits or four decimal digits, after the width of an
  inclusive selector is added. For 2EE the length counts the embedded header of two bytes,
  which the written value leaves out, so the length is at least 2.
\<close>

definition in_range :: "string \<Rightarrow> goint \<Rightarrow> bool" where
  "in_range key L =
     (if key = MLI2I then 0 \<le> sint L \<and> sint L + 2 < 2 ^ 16
      else if key = MLI2E then 0 \<le> sint L \<and> sint L < 2 ^ 16
      else if key = MLI4I then 0 \<le> sint L \<and> sint L + 4 < 2 ^ 32
      else if key = MLI4E then 0 \<le> sint L \<and> sint L < 2 ^ 32
      else if key = MLI2EE then 2 \<le> sint L \<and> sint L - 2 < 2 ^ 16
      else if key = MLI2BCD2 then 0 \<le> sint L \<and> sint L + 4 < 10 ^ 4
      else if key = MLIA4E then 0 \<le> sint L \<and> sint L < 10 ^ 4
      else False)"

section \<open>Properties\<close>

subsection \<open>Decode, selector by selector\<close>

lemma Decode_size_2I: "length b \<noteq> 2 \<Longrightarrow> Decode ''2I'' b = (0, Some ErrByteSize)"
  and Decode_size_2E: "length b \<noteq> 2 \<Longrightarrow> Decode ''2E'' b = (0, Some ErrByteSize)"
  and Decode_size_4I: "length b \<noteq> 4 \<Longrightarrow> Decode ''4I'' b = (0, Some ErrByteSize)"
  and Decode_size_4E: "length b \<noteq> 4 \<Longrightarrow> Decode ''4E'' b = (0, Some ErrByteSize)"
  and Decode_size_2EE: "length b \<noteq> 2 \<Longrightarrow> Decode ''2EE'' b = (0, Some ErrByteSize)"
  and Decode_size_2BCD2: "length b \<noteq> 4 \<Longrightarrow> Decode ''2BCD2'' b = (0, Some ErrByteSize)"
  and Decode_size_A4E: "length b \<noteq> 4 \<Longrightarrow> Decode ''A4E'' b = (0, Some ErrByteSize)"
  by (simp_all add: Decode_def)

lemma Decode_2I:
  "length b = 2 \<Longrightarrow> Decode ''2I'' b =
     (if (ucast (Uint16 b) :: goint) = 0 then (0, None)
      else if (ucast (Uint16 b) - 2 :: goint) <s 0 then (0, Some ErrLength)
      else (ucast (Uint16 b) - 2, None))"
  by (simp add: Decode_def Let_def)

lemma Decode_2E: "length b = 2 \<Longrightarrow> Decode ''2E'' b = (ucast (Uint16 b), None)"
  by (simp add: Decode_def Let_def)

lemma Decode_4I:
  "length b = 4 \<Longrightarrow> Decode ''4I'' b =
     (if (ucast (Uint32 b) :: goint) = 0 then (0, None)
      else if (ucast (Uint32 b) - 4 :: goint) <s 0 then (0, Some ErrLength)
      else (ucast (Uint32 b) - 4, None))"
  by (simp add: Decode_def Let_def)

lemma Decode_4E: "length b = 4 \<Longrightarrow> Decode ''4E'' b = (ucast (Uint32 b), None)"
  by (simp add: Decode_def Let_def)

lemma Decode_2EE: "length b = 2 \<Longrightarrow> Decode ''2EE'' b = (ucast (Uint16 b) + 2, None)"
  by (simp add: Decode_def Let_def)

lemma Decode_2BCD2:
  "length b = 4 \<Longrightarrow> Decode ''2BCD2'' b =
     (case Atoi (EncodeToString (take 2 (drop 2 b))) of
        (n, Some err) \<Rightarrow> (0, Some (ErrHexToInt err))
      | (n, None) \<Rightarrow>
          if n = 0 then (0, None)
          else if n - 4 <s 0 then (0, Some ErrLength) else (n - 4, None))"
  by (simp add: Decode_def Let_def split: prod.split option.split)

lemma Decode_A4E:
  "length b = 4 \<Longrightarrow> Decode ''A4E'' b =
     (if Count b 0x30 = 4 then (0, None)
      else (case Atoi b of
              (n, Some err) \<Rightarrow> (0, Some (ErrStrToInt err))
            | (n, None) \<Rightarrow> (n, None)))"
  by (simp add: Decode_def unsafeByteToStr_def)

lemma variants_cases:
  "key \<in> set variants \<Longrightarrow>
     key = ''2I'' \<or> key = ''2E'' \<or> key = ''4I'' \<or> key = ''4E'' \<or> key = ''2EE''
     \<or> key = ''2BCD2'' \<or> key = ''A4E''"
  by (simp add: variants_def)

lemma width_simps:
  "width ''2I'' = 2" "width ''2E'' = 2" "width ''4I'' = 4" "width ''4E'' = 4"
  "width ''2EE'' = 2" "width ''2BCD2'' = 4" "width ''A4E'' = 4"
  by (simp_all add: width_def)

lemma minus_one_negative: "(- 1 :: goint) <s 0"
  by (simp add: word_sless_alt)

subsection \<open>Rejections\<close>

text \<open>
  C4. For each of the seven selectors, a buffer whose length is not the width of the
  selector, longer or shorter, is refused with \<open>ErrByteSize\<close>. The answer is the same for
  every such buffer, whatever its bytes: the length is checked before they are read.
\<close>

theorem Decode_size_mismatch:
  assumes "key \<in> set variants" and "length b \<noteq> width key"
  shows "Decode key b = (0, Some ErrByteSize)"
  using variants_cases [OF assms(1)] assms(2)
  by (elim disjE) (simp_all add: width_simps Decode_size_2I Decode_size_2E Decode_size_4I
      Decode_size_4E Decode_size_2EE Decode_size_2BCD2 Decode_size_A4E)

theorem Decode_size_mismatch_witness:
  "MLI2I \<in> set variants \<and> length [0, 0, 0x2d :: byte] \<noteq> width MLI2I
   \<and> Decode MLI2I [0, 0, 0x2d] = (0, Some ErrByteSize)
   \<and> MLIA4E \<in> set variants \<and> length [0x30 :: byte] \<noteq> width MLIA4E
   \<and> Decode MLIA4E [0x30] = (0, Some ErrByteSize)"
  using Decode_size_mismatch [of MLI2I "[0, 0, 0x2d]"] Decode_size_mismatch [of MLIA4E "[0x30]"]
  by (simp add: variants_def width_simps)

text \<open>
  C5. A negative length is refused with \<open>ErrLength\<close> whatever the selector string is, one
  of the seven or not: the sign is tested before the selector is looked at.
\<close>

theorem Encode_negative: "length' <s 0 \<Longrightarrow> Encode key length' = (empty, Some ErrLength)"
  by (simp add: Encode_def)

theorem Encode_negative_witness:
  "(- 1 :: goint) <s 0 \<and> Encode ''bogus'' (- 1) = (empty, Some ErrLength)
   \<and> Encode MLI2BCD2 (- 1) = (empty, Some ErrLength)"
  using Encode_negative [of "- 1" "''bogus''"] Encode_negative [of "- 1" MLI2BCD2]
    minus_one_negative
  by blast



subsection \<open>Big-endian integers\<close>

lemma Uint16_PutUint16: "Uint16 (PutUint16 v) = v"
  unfolding Uint16_def PutUint16_def
  apply simp
  apply (rule bit_eqI)
  apply (auto simp: bit_simps)
  done

lemma Uint32_PutUint32: "Uint32 (PutUint32 v) = v"
  unfolding Uint32_def PutUint32_def
  apply simp
  apply (rule bit_eqI)
  subgoal for n
    apply (cases "n < 8"; cases "n < 16"; cases "n < 24")
           apply (auto simp: bit_simps not_less)
    done
  done

lemma PutUint16_Uint16: "PutUint16 (Uint16 [b0, b1]) = [b0, b1]"
  unfolding Uint16_def PutUint16_def
  apply simp
  apply (rule conjI; rule bit_eqI)
  apply (auto simp: bit_simps dest: bit_imp_le_length)
  done

lemma PutUint32_Uint32: "PutUint32 (Uint32 [b0, b1, b2, b3]) = [b0, b1, b2, b3]"
  unfolding Uint32_def PutUint32_def
  apply simp
  apply (intro conjI; rule bit_eqI)
  apply (auto simp: bit_simps dest: bit_imp_le_length)
  done

lemma split16:
  fixes k :: int
  assumes "0 \<le> k" and "k < 65536"
  shows "256 * (k div 256 mod 256) + k mod 256 = k"
proof -
  have "k div 256 < 256" using assms(2) by simp
  moreover have "0 \<le> k div 256" using assms(1) by simp
  ultimately have "k div 256 mod 256 = k div 256" by simp
  then show ?thesis by simp
qed

lemma split32:
  fixes k :: int
  assumes "0 \<le> k" and "k < 4294967296"
  shows "16777216 * (k div 16777216 mod 256) + 65536 * (k div 65536 mod 256)
     + 256 * (k div 256 mod 256) + k mod 256 = k"
proof -
  define a where "a = k div 256"
  define b where "b = a div 256"
  define c where "c = b div 256"
  have k: "k = 256 * a + k mod 256" by (simp add: a_def)
  have a: "a = 256 * b + a mod 256" by (simp add: b_def)
  have b: "b = 256 * c + b mod 256" by (simp add: c_def)
  have kb: "k div 65536 = b"
    using zdiv_zmult2_eq [of 256 k 256] by (simp add: a_def b_def)
  have kc: "k div 16777216 = c"
    using zdiv_zmult2_eq [of 256 k 65536] by (simp add: kb c_def)
  have "c < 256" using assms(2) unfolding kc [symmetric] by simp
  moreover have "0 \<le> c" using assms(1) unfolding kc [symmetric] by simp
  ultimately have c: "c mod 256 = c" by simp
  show ?thesis
    unfolding kc kb a_def [symmetric] c
    using k a b by linarith
qed



lemma be_value_PutUint16: "be_value (PutUint16 v) = uint v"
proof -
  have "uint v < 65536" using uint_lt2p [of v] by simp
  then have *: "256 * (uint v div 256 mod 256) + uint v mod 256 = uint v"
    by (intro split16) simp_all
  have "be_value (PutUint16 v) = 256 * (uint v div 256 mod 256) + uint v mod 256"
    by (simp add: be_value_def PutUint16_def unsigned_ucast_eq unsigned_drop_bit_eq
        take_bit_eq_mod drop_bit_eq_div uint_div_distrib)
  also note *
  finally show ?thesis .
qed

lemma be_value_PutUint32: "be_value (PutUint32 v) = uint v"
proof -
  have "uint v < 4294967296" using uint_lt2p [of v] by simp
  then have *: "16777216 * (uint v div 16777216 mod 256) + 65536 * (uint v div 65536 mod 256)
     + 256 * (uint v div 256 mod 256) + uint v mod 256 = uint v"
    by (intro split32) simp_all
  have "be_value (PutUint32 v) = 16777216 * (uint v div 16777216 mod 256)
     + 65536 * (uint v div 65536 mod 256) + 256 * (uint v div 256 mod 256) + uint v mod 256"
    by (simp add: be_value_def PutUint32_def unsigned_ucast_eq unsigned_drop_bit_eq
        take_bit_eq_mod drop_bit_eq_div uint_div_distrib)
  also note *
  finally show ?thesis .
qed

lemma length2E: "length b = 2 \<Longrightarrow> \<exists>b0 b1. b = [b0, b1]"
  by (cases b; cases "tl b"; auto)

lemma length4E: "length b = 4 \<Longrightarrow> \<exists>b0 b1 b2 b3. b = [b0, b1, b2, b3]"
  by (cases b; cases "tl b"; cases "tl (tl b)"; cases "tl (tl (tl b))"; auto)

lemma uint_Uint16: "length b = 2 \<Longrightarrow> uint (Uint16 b) = be_value b"
proof -
  assume "length b = 2"
  then obtain b0 b1 where b: "b = [b0, b1]" using length2E by blast
  have "be_value (PutUint16 (Uint16 b)) = uint (Uint16 b)" by (rule be_value_PutUint16)
  then show ?thesis by (simp add: b PutUint16_Uint16)
qed

lemma uint_Uint32: "length b = 4 \<Longrightarrow> uint (Uint32 b) = be_value b"
proof -
  assume "length b = 4"
  then obtain b0 b1 b2 b3 where b: "b = [b0, b1, b2, b3]" using length4E by blast
  have "be_value (PutUint32 (Uint32 b)) = uint (Uint32 b)" by (rule be_value_PutUint32)
  then show ?thesis by (simp add: b PutUint32_Uint32)
qed

subsection \<open>Signed 64-bit integers\<close>

lemma sint_ucast16: "sint (ucast (w :: uint16) :: goint) = uint w"
proof -
  have "uint w < 2 ^ 16" using uint_lt2p [of w] by simp
  then have "uint w < 2 ^ 63" by simp
  moreover have "- (2 ^ 63) \<le> uint w"
    by (rule order_trans [of _ 0]) simp_all
  ultimately show ?thesis
    by (simp add: sint_uint uint_up_ucast is_up signed_take_bit_int_eq_self_iff)
qed

lemma sint_ucast32: "sint (ucast (w :: uint32) :: goint) = uint w"
proof -
  have "uint w < 2 ^ 32" using uint_lt2p [of w] by simp
  then have "uint w < 2 ^ 63" by simp
  moreover have "- (2 ^ 63) \<le> uint w"
    by (rule order_trans [of _ 0]) simp_all
  ultimately show ?thesis
    by (simp add: sint_uint uint_up_ucast is_up signed_take_bit_int_eq_self_iff)
qed

lemma word_of_int_sint_goint: "word_of_int (sint L) = (L :: goint)"
  by simp

lemma sint_word_of_int_goint:
  "- (2 ^ 63) \<le> k \<Longrightarrow> k < 2 ^ 63 \<Longrightarrow> sint (word_of_int k :: goint) = k"
  by (simp add: sint_sbintrunc' signed_take_bit_int_eq_self_iff)

lemma uint_ucast16_of_int: "uint (ucast (word_of_int k :: goint) :: uint16) = k mod 2 ^ 16"
proof -
  have "uint (ucast (word_of_int k :: goint) :: uint16) = take_bit 16 k"
    by (simp add: unsigned_ucast_eq uint_word_of_int_eq)
  then show ?thesis by (simp add: take_bit_eq_mod)
qed

lemma uint_ucast32_of_int: "uint (ucast (word_of_int k :: goint) :: uint32) = k mod 2 ^ 32"
proof -
  have "uint (ucast (word_of_int k :: goint) :: uint32) = take_bit 32 k"
    by (simp add: unsigned_ucast_eq uint_word_of_int_eq)
  then show ?thesis by (simp add: take_bit_eq_mod)
qed

lemma ucast16_goint: "ucast (ucast (w :: uint16) :: goint) = w"
  by (simp add: ucast_up_ucast_id is_up)



lemma sint_eq_0_goint: "sint (x :: goint) = 0 \<longleftrightarrow> x = 0"
  by (metis sint_0 word_of_int_sint_goint)

lemma ucast16_eq_0: "(ucast (w :: uint16) :: goint) = 0 \<longleftrightarrow> uint w = 0"
proof -
  have "(ucast w :: goint) = 0 \<longleftrightarrow> uint (ucast w :: goint) = 0"
    by (rule uint_0_iff [symmetric])
  also have "uint (ucast w :: goint) = uint w"
    by (simp add: uint_up_ucast is_up)
  finally show ?thesis .
qed

lemma ucast32_eq_0: "(ucast (w :: uint32) :: goint) = 0 \<longleftrightarrow> uint w = 0"
proof -
  have "(ucast w :: goint) = 0 \<longleftrightarrow> uint (ucast w :: goint) = 0"
    by (rule uint_0_iff [symmetric])
  also have "uint (ucast w :: goint) = uint w"
    by (simp add: uint_up_ucast is_up)
  finally show ?thesis .
qed

lemma sint_goint_minus:
  fixes x :: goint
  assumes "0 \<le> sint x" and "0 \<le> k" and "k < 2 ^ 63"
  shows "sint (x - word_of_int k) = sint x - k"
proof -
  have "sint x < 2 ^ 63" using sint_lt [of x] by simp
  have k: "sint (word_of_int k :: goint) = k"
    using assms by (intro sint_word_of_int_goint) simp_all
  have lo: "- (2 ^ 63) \<le> sint x - k" using assms by simp
  have hi: "sint x - k < 2 ^ 63" using assms \<open>sint x < 2 ^ 63\<close> by simp
  have "sint (x - word_of_int k) = signed_take_bit 63 (sint x - sint (word_of_int k :: goint))"
    by (simp add: sint_word_diff)
  also have "\<dots> = signed_take_bit 63 (sint x - k)" by (simp only: k)
  also have "\<dots> = sint x - k"
    using lo hi by (simp only: signed_take_bit_int_eq_self_iff)
  finally show ?thesis .
qed

lemma sint_ucast16_minus: "sint ((ucast (w :: uint16) :: goint) - 2) = uint w - 2"
  using sint_goint_minus [of "ucast w" 2] by (simp add: sint_ucast16)

lemma sint_ucast32_minus: "sint ((ucast (w :: uint32) :: goint) - 4) = uint w - 4"
  using sint_goint_minus [of "ucast w" 4] by (simp add: sint_ucast32)

lemma Decode_2I_int:
  assumes "length b = 2"
  shows "apfst sint (Decode ''2I'' b) =
     (if be_value b = 0 then (0, None)
      else if be_value b < 2 then (0, Some ErrLength)
      else (be_value b - 2, None))"
proof -
  have "uint (Uint16 b) = be_value b" using assms by (rule uint_Uint16)
  then show ?thesis
    by (simp add: Decode_2I [OF assms] ucast16_eq_0 word_sless_alt sint_ucast16_minus)
qed

lemma Decode_4I_int:
  assumes "length b = 4"
  shows "apfst sint (Decode ''4I'' b) =
     (if be_value b = 0 then (0, None)
      else if be_value b < 4 then (0, Some ErrLength)
      else (be_value b - 4, None))"
proof -
  have "uint (Uint32 b) = be_value b" using assms by (rule uint_Uint32)
  then show ?thesis
    by (simp add: Decode_4I [OF assms] ucast32_eq_0 word_sless_alt sint_ucast32_minus)
qed

lemma Decode_2I_00_01: "Decode ''2I'' [0, 1] = (0, Some ErrLength)"
  by (simp add: Decode_2I Uint16_def word_sless_alt)

text \<open>
  C6. On a buffer of two bytes for 2I, and of four bytes for 4I, \<^verbatim>\<open>Decode\<close> reads the
  big-endian unsigned value. A value of zero gives 0 without error, and nothing is
  subtracted; a value above zero and below the width gives \<open>ErrLength\<close>; any other value
  gives the value minus the width. The bytes 00 01 read as 2I give \<open>ErrLength\<close>.
\<close>

theorem Decode_inclusive:
  "(length b = 2 \<longrightarrow>
      apfst sint (Decode MLI2I b) =
        (if be_value b = 0 then (0, None)
         else if be_value b < 2 then (0, Some ErrLength)
         else (be_value b - 2, None)))
   \<and> (length b = 4 \<longrightarrow>
      apfst sint (Decode MLI4I b) =
        (if be_value b = 0 then (0, None)
         else if be_value b < 4 then (0, Some ErrLength)
         else (be_value b - 4, None)))
   \<and> Decode MLI2I [0, 1] = (0, Some ErrLength)"
  using Decode_2I_int [of b] Decode_4I_int [of b] Decode_2I_00_01 by simp

theorem Decode_inclusive_witness:
  "apfst sint (Decode MLI2I [0, 0]) = (0, None)
   \<and> apfst sint (Decode MLI2I [0, 1]) = (0, Some ErrLength)
   \<and> apfst sint (Decode MLI2I [0, 0x2d]) = (43, None)
   \<and> apfst sint (Decode MLI4I [0, 0, 0, 0]) = (0, None)
   \<and> apfst sint (Decode MLI4I [0, 0, 0, 3]) = (0, Some ErrLength)
   \<and> apfst sint (Decode MLI4I [0, 0, 0, 0x35]) = (49, None)"
  using Decode_inclusive [of "[0, 0]"] Decode_inclusive [of "[0, 1]"]
    Decode_inclusive [of "[0, 0x2d]"] Decode_inclusive [of "[0, 0, 0, 0]"]
    Decode_inclusive [of "[0, 0, 0, 3]"] Decode_inclusive [of "[0, 0, 0, 0x35]"]
  by (simp add: be_value_def)


subsection \<open>Encode, selector by selector\<close>

lemma Encode_2I: "\<not> L <s 0 \<Longrightarrow> Encode ''2I'' L = (PutUint16 (ucast (L + 2)), None)"
  and Encode_2E: "\<not> L <s 0 \<Longrightarrow> Encode ''2E'' L = (PutUint16 (ucast L), None)"
  and Encode_4I: "\<not> L <s 0 \<Longrightarrow> Encode ''4I'' L = (PutUint32 (ucast (L + 4)), None)"
  and Encode_4E: "\<not> L <s 0 \<Longrightarrow> Encode ''4E'' L = (PutUint32 (ucast L), None)"
  and Encode_2EE: "\<not> L <s 0 \<Longrightarrow> Encode ''2EE'' L = (PutUint16 (ucast (L - 2)), None)"
  by (simp_all add: Encode_def)

lemma Encode_2BCD2:
  "\<not> L <s 0 \<Longrightarrow> Encode ''2BCD2'' L =
     (case DecodeString (Sprintf_04d (L + 4)) of
        (h, Some err) \<Rightarrow> ([], Some (ErrLenToHex err))
      | (h, None) \<Rightarrow> (0 # 0 # h, None))"
  by (simp add: Encode_def split: prod.split option.split)

lemma Encode_A4E:
  "\<not> L <s 0 \<Longrightarrow> Encode ''A4E'' L =
     (fst (DecodeString (Sprintf_X (Sprintf_04d L))), None)"
  by (simp add: Encode_def Let_def split: prod.split)

lemma goint_plus_int: "(L :: goint) + word_of_int k = word_of_int (sint L + k)"
  by simp

lemma goint_minus_int: "(L :: goint) - word_of_int k = word_of_int (sint L - k)"
  by simp

lemma written_2I: "be_value (PutUint16 (ucast ((L :: goint) + 2))) = (sint L + 2) mod 2 ^ 16"
  using goint_plus_int [of L 2] by (simp only: be_value_PutUint16 uint_ucast16_of_int word_of_int_numeral)

lemma written_2E: "be_value (PutUint16 (ucast (L :: goint))) = sint L mod 2 ^ 16"
  using uint_ucast16_of_int [of "sint L"] by (simp only: be_value_PutUint16 word_of_int_sint_goint)

lemma written_4I: "be_value (PutUint32 (ucast ((L :: goint) + 4))) = (sint L + 4) mod 2 ^ 32"
  using goint_plus_int [of L 4] by (simp only: be_value_PutUint32 uint_ucast32_of_int word_of_int_numeral)

lemma written_4E: "be_value (PutUint32 (ucast (L :: goint))) = sint L mod 2 ^ 32"
  using uint_ucast32_of_int [of "sint L"] by (simp only: be_value_PutUint32 word_of_int_sint_goint)

lemma written_2EE: "be_value (PutUint16 (ucast ((L :: goint) - 2))) = (sint L - 2) mod 2 ^ 16"
  using goint_minus_int [of L 2] by (simp only: be_value_PutUint16 uint_ucast16_of_int word_of_int_numeral)

lemma length_PutUint16: "length (PutUint16 v) = 2"
  and length_PutUint32: "length (PutUint32 v') = 4"
  by (simp_all add: PutUint16_def PutUint32_def)

lemma ucast_minus2: "(ucast (- 2 :: goint) :: uint16) = 0xFFFE"
  by (simp add: ucast_eq)

lemma Encode_2EE_0: "Encode ''2EE'' 0 = ([0xff, 0xfe], None)"
  by (simp add: Encode_def PutUint16_def word_sless_alt ucast_minus2)

text \<open>
  C10. For a length that is not negative, \<^verbatim>\<open>Encode\<close> with 2I, 2E, 4I, 4E or 2EE returns no
  error: the buffer has the width of the selector and holds the adjusted length reduced
  modulo \<open>2 ^ 16\<close> or \<open>2 ^ 32\<close>. So 2EE with a length below 2 succeeds and writes the
  length minus 2 modulo \<open>2 ^ 16\<close>: length 0 gives the bytes FF FE.
\<close>

theorem Encode_binary_never_fails:
  assumes "0 \<le>s L"
  shows "(\<exists>b. Encode MLI2I L = (b, None) \<and> length b = 2 \<and> be_value b = (sint L + 2) mod 2 ^ 16)
    \<and> (\<exists>b. Encode MLI2E L = (b, None) \<and> length b = 2 \<and> be_value b = sint L mod 2 ^ 16)
    \<and> (\<exists>b. Encode MLI4I L = (b, None) \<and> length b = 4 \<and> be_value b = (sint L + 4) mod 2 ^ 32)
    \<and> (\<exists>b. Encode MLI4E L = (b, None) \<and> length b = 4 \<and> be_value b = sint L mod 2 ^ 32)
    \<and> (\<exists>b. Encode MLI2EE L = (b, None) \<and> length b = 2 \<and> be_value b = (sint L - 2) mod 2 ^ 16)
    \<and> Encode MLI2EE 0 = ([0xff, 0xfe], None)"
proof -
  have L: "\<not> L <s 0" using assms by (simp add: word_sle_eq word_sless_alt)
  have c1: "\<exists>b. Encode ''2I'' L = (b, None) \<and> length b = 2
      \<and> be_value b = (sint L + 2) mod 2 ^ 16"
    by (intro exI [of _ "PutUint16 (ucast (L + 2))"] conjI Encode_2I [OF L] length_PutUint16
        written_2I)
  have c2: "\<exists>b. Encode ''2E'' L = (b, None) \<and> length b = 2 \<and> be_value b = sint L mod 2 ^ 16"
    by (intro exI [of _ "PutUint16 (ucast L)"] conjI Encode_2E [OF L] length_PutUint16
        written_2E)
  have c3: "\<exists>b. Encode ''4I'' L = (b, None) \<and> length b = 4
      \<and> be_value b = (sint L + 4) mod 2 ^ 32"
    by (intro exI [of _ "PutUint32 (ucast (L + 4))"] conjI Encode_4I [OF L] length_PutUint32
        written_4I)
  have c4: "\<exists>b. Encode ''4E'' L = (b, None) \<and> length b = 4 \<and> be_value b = sint L mod 2 ^ 32"
    by (intro exI [of _ "PutUint32 (ucast L)"] conjI Encode_4E [OF L] length_PutUint32
        written_4E)
  have c5: "\<exists>b. Encode ''2EE'' L = (b, None) \<and> length b = 2
      \<and> be_value b = (sint L - 2) mod 2 ^ 16"
    by (intro exI [of _ "PutUint16 (ucast (L - 2))"] conjI Encode_2EE [OF L] length_PutUint16
        written_2EE)
  show ?thesis
    unfolding MLI2I_def MLI2E_def MLI4I_def MLI4E_def MLI2EE_def
    by (intro conjI c1 c2 c3 c4 c5 Encode_2EE_0)
qed

theorem Encode_binary_never_fails_witness:
  "0 \<le>s (1 :: goint)
   \<and> (\<exists>b. Encode MLI2EE 1 = (b, None) \<and> length b = 2 \<and> be_value b = 65535)
   \<and> (\<exists>b. Encode MLI2I 1 = (b, None) \<and> length b = 2 \<and> be_value b = 3)
   \<and> Encode MLI2EE 0 = ([0xff, 0xfe], None)"
  using Encode_binary_never_fails [of 1]
  by (simp add: word_sle_eq)





subsection \<open>The header bytes of 2BCD2\<close>

text \<open>
  C9. \<^verbatim>\<open>Decode\<close> with 2BCD2 never reads the first two bytes: two buffers of four bytes
  that agree at the indices 2 and 3 get the same length and the same error.
\<close>

theorem Decode_2BCD2_header_ignored:
  assumes "length a = 4" and "length b = 4" and "a ! 2 = b ! 2" and "a ! 3 = b ! 3"
  shows "Decode MLI2BCD2 a = Decode MLI2BCD2 b"
proof -
  obtain a0 a1 a2 a3 where a: "a = [a0, a1, a2, a3]" using length4E [OF assms(1)] by blast
  obtain b0 b1 b2 b3 where b: "b = [b0, b1, b2, b3]" using length4E [OF assms(2)] by blast
  have "take 2 (drop 2 a) = take 2 (drop 2 b)" using assms(3,4) by (simp add: a b)
  then show ?thesis by (simp add: Decode_2BCD2 assms(1,2))
qed

theorem Decode_2BCD2_header_ignored_witness:
  "length [0xde, 0xad, 0x02, 0x88 :: byte] = 4 \<and> length [0, 0, 0x02, 0x88 :: byte] = 4
   \<and> [0xde, 0xad, 0x02, 0x88 :: byte] ! 2 = [0, 0, 0x02, 0x88] ! 2
   \<and> [0xde, 0xad, 0x02, 0x88 :: byte] ! 3 = [0, 0, 0x02, 0x88] ! 3
   \<and> Decode MLI2BCD2 [0xde, 0xad, 0x02, 0x88] = Decode MLI2BCD2 [0, 0, 0x02, 0x88]"
  using Decode_2BCD2_header_ignored [of "[0xde, 0xad, 0x02, 0x88]" "[0, 0, 0x02, 0x88]"]
  by simp

subsection \<open>ASCII lengths\<close>

lemma Atoi_minus123: "Atoi [0x2d, 0x31, 0x32, 0x33] = (- 123, None)"
  by (simp add: Atoi_def)

text \<open>
  C2. The bytes \<^verbatim>\<open>-123\<close> decode as A4E to the length \<open>-123\<close> without an error:
  \<^verbatim>\<open>strconv.Atoi\<close> accepts a sign, and this branch has no test for a negative result,
  unlike the branches of 2I, 4I and 2BCD2.
\<close>

theorem Decode_A4E_negative:
  "Decode MLIA4E [0x2d, 0x31, 0x32, 0x33] = (- 123, None) \<and> (- 123 :: goint) <s 0"
  by (simp add: Decode_A4E Count_def Atoi_minus123 word_sless_alt)

lemma Atoi_plus123: "Atoi [0x2b, 0x31, 0x32, 0x33] = (123, None)"
  by (simp add: Atoi_def)


lemma digit_test: "(c - 0x30 > (9 :: byte)) \<longleftrightarrow> \<not> is_digit c"
  unfolding is_digit_def
  by (simp add: word_less_nat_alt word_le_nat_alt unat_sub_if') arith

lemma uint_digit: "is_digit c \<Longrightarrow> uint (c - 0x30) = uint c - 48"
  unfolding is_digit_def
  by (simp add: word_le_def uint_sub_if')

lemma ucast_digit: "is_digit c \<Longrightarrow> (ucast (c - 0x30) :: goint) = word_of_int (uint c - 48)"
  using uint_digit [of c] by (simp only: ucast_eq)


lemma atoi_loop_None: "atoi_loop s n = None \<longleftrightarrow> \<not> list_all is_digit s"
  by (induction s arbitrary: n) (simp_all add: digit_test)

lemma atoi_loop_digits:
  "list_all is_digit s \<Longrightarrow>
     atoi_loop s (word_of_int a) = Some (word_of_int (foldl (\<lambda>a c. 10 * a + (uint c - 48)) a s))"
proof (induction s arbitrary: a)
  case Nil
  then show ?case by simp
next
  case (Cons c s)
  then have c: "is_digit c" and s: "list_all is_digit s" by simp_all
  have eq: "(word_of_int a :: goint) * 10 + ucast (c - 0x30) = word_of_int (10 * a + (uint c - 48))"
    by (simp add: ucast_digit [OF c])
  have "atoi_loop (c # s) (word_of_int a) = atoi_loop s (word_of_int a * 10 + ucast (c - 0x30))"
    using c by (simp add: digit_test)
  also have "\<dots> = atoi_loop s (word_of_int (10 * a + (uint c - 48)))"
    by (simp only: eq)
  also have "\<dots> = Some (word_of_int (foldl (\<lambda>a c. 10 * a + (uint c - 48))
      (10 * a + (uint c - 48)) s))"
    by (rule Cons.IH [OF s])
  finally show ?case by simp
qed

lemma atoi_loop_value:
  "list_all is_digit s \<Longrightarrow> atoi_loop s 0 = Some (word_of_int (decimal_value s))"
  using atoi_loop_digits [of s 0] by (simp add: decimal_value_def)

lemma digit_bounds: "is_digit c \<Longrightarrow> 0 \<le> uint c - 48 \<and> uint c - 48 \<le> 9"
  unfolding is_digit_def by (simp add: word_le_def)

lemma foldl_decimal_bounds:
  "list_all is_digit s \<Longrightarrow> 0 \<le> a \<Longrightarrow>
     0 \<le> foldl (\<lambda>a c. 10 * a + (uint c - 48)) a s
     \<and> foldl (\<lambda>a c. 10 * a + (uint c - 48)) a s < (a + 1) * 10 ^ length s"
proof (induction s arbitrary: a)
  case Nil
  then show ?case by simp
next
  case (Cons c s)
  then have c: "is_digit c" and s: "list_all is_digit s" by simp_all
  let ?a = "10 * a + (uint c - 48)"
  have a: "0 \<le> ?a" using digit_bounds [OF c] Cons.prems(2) by simp
  have "?a + 1 \<le> (a + 1) * 10" using digit_bounds [OF c] by simp
  then have "(?a + 1) * 10 ^ length s \<le> ((a + 1) * 10) * 10 ^ length s"
    by (intro mult_right_mono) simp_all
  then have le: "(?a + 1) * 10 ^ length s \<le> (a + 1) * 10 ^ length (c # s)"
    by (simp add: mult.assoc)
  have lo: "0 \<le> foldl (\<lambda>a c. 10 * a + (uint c - 48)) ?a s"
    and up: "foldl (\<lambda>a c. 10 * a + (uint c - 48)) ?a s < (?a + 1) * 10 ^ length s"
    using Cons.IH [OF s a] by simp_all
  have "foldl (\<lambda>a c. 10 * a + (uint c - 48)) ?a s < (a + 1) * 10 ^ length (c # s)"
    using up le by (rule less_le_trans)
  with lo show ?case by simp
qed

lemma decimal_value_bounds:
  "list_all is_digit s \<Longrightarrow> 0 \<le> decimal_value s \<and> decimal_value s < 10 ^ length s"
  using foldl_decimal_bounds [of s 0] by (simp add: decimal_value_def)


lemma Atoi4_unsigned:
  "length b = 4 \<Longrightarrow> hd b \<noteq> 0x2d \<Longrightarrow> hd b \<noteq> 0x2b \<Longrightarrow>
     Atoi b = (case atoi_loop b 0 of None \<Rightarrow> (0, Some ErrSyntax) | Some n \<Rightarrow> (n, None))"
  by (simp add: Atoi_def Let_def split: option.split)


lemma Count4:
  "Count [b0, b1, b2, b3] 0x30 = 4 \<longleftrightarrow> [b0, b1, b2, b3] = [0x30, 0x30, 0x30, 0x30]"
  by (simp add: Count_def)




lemma Decode_A4E_parse:
  assumes "length b = 4" and "b \<noteq> [0x30, 0x30, 0x30, 0x30]"
  shows "Decode ''A4E'' b =
     (case Atoi b of (n, Some err) \<Rightarrow> (0, Some (ErrStrToInt err)) | (n, None) \<Rightarrow> (n, None))"
proof -
  obtain b0 b1 b2 b3 where b: "b = [b0, b1, b2, b3]" using length4E [OF assms(1)] by blast
  have "Count b 0x30 \<noteq> 4" using assms(2) unfolding b Count4 .
  then show ?thesis by (simp add: Decode_A4E [OF assms(1)])
qed

lemma Decode_A4E_unsigned:
  assumes "length b = 4" and "b \<noteq> [0x30, 0x30, 0x30, 0x30]"
    and "hd b \<noteq> 0x2d" and "hd b \<noteq> 0x2b"
  shows "Decode ''A4E'' b =
     (if list_all is_digit b then (word_of_int (decimal_value b), None)
      else (0, Some (ErrStrToInt ErrSyntax)))"
proof (cases "list_all is_digit b")
  case True
  then show ?thesis
    by (simp add: Decode_A4E_parse [OF assms(1,2)] Atoi4_unsigned [OF assms(1,3,4)]
        atoi_loop_value)
next
  case False
  then have "atoi_loop b 0 = None" by (simp add: atoi_loop_None)
  then show ?thesis using False
    by (simp add: Decode_A4E_parse [OF assms(1,2)] Atoi4_unsigned [OF assms(1,3,4)])
qed











subsection \<open>Decimal digits\<close>

declare digits10.simps [simp del]

lemma digits10_small: "u < 10 \<Longrightarrow> digits10 u = [0x30 + of_nat u]"
  by (subst digits10.simps) simp

lemma digits10_step:
  "10 \<le> u \<Longrightarrow> digits10 u = digits10 (u div 10) @ [0x30 + of_nat (u mod 10)]"
  by (subst digits10.simps) simp

lemma uint_digit_char: "k < 10 \<Longrightarrow> uint (0x30 + of_nat k :: byte) = 48 + int k"
proof -
  assume k: "k < 10"
  then have "k mod 256 = k" by simp
  then have "uint (0x30 + of_nat k :: byte) = (48 + int k) mod 256"
    by (simp add: uint_word_ariths uint_word_of_int take_bit_eq_mod unsigned_of_nat)
  also have "\<dots> = 48 + int k" using k by simp
  finally show ?thesis .
qed

lemma is_digit_char: "k < 10 \<Longrightarrow> is_digit (0x30 + of_nat k)"
  using uint_digit_char [of k] by (simp add: is_digit_def word_le_def)

lemma decimal_value_snoc:
  "decimal_value (s @ [c]) = 10 * decimal_value s + (uint c - 48)"
  by (simp add: decimal_value_def)

lemma digits10_digits: "list_all is_digit (digits10 u)"
proof (induction u rule: digits10.induct)
  case (1 u)
  show ?case
  proof (cases "u < 10")
    case True
    then show ?thesis by (simp add: digits10_small is_digit_char)
  next
    case False
    then have "list_all is_digit (digits10 (u div 10))" using 1 by simp
    moreover have "is_digit (0x30 + of_nat (u mod 10))" by (rule is_digit_char) simp
    ultimately show ?thesis using False by (simp add: digits10_step)
  qed
qed

lemma decimal_value_digits10: "decimal_value (digits10 u) = int u"
proof (induction u rule: digits10.induct)
  case (1 u)
  show ?case
  proof (cases "u < 10")
    case True
    then show ?thesis by (simp add: digits10_small decimal_value_def uint_digit_char)
  next
    case False
    then have IH: "decimal_value (digits10 (u div 10)) = int (u div 10)" using 1 by simp
    have "uint (0x30 + of_nat (u mod 10) :: byte) = 48 + int (u mod 10)"
      by (rule uint_digit_char) simp
    then have "decimal_value (digits10 u) = 10 * int (u div 10) + int (u mod 10)"
      using False by (simp add: digits10_step decimal_value_snoc IH)
    also have "\<dots> = int (10 * (u div 10) + u mod 10)" by (simp only: of_nat_add of_nat_mult of_nat_numeral)
    also have "\<dots> = int u" by simp
    finally show ?thesis .
  qed
qed

lemma length_digits10_le: "0 < k \<Longrightarrow> u < 10 ^ k \<Longrightarrow> length (digits10 u) \<le> k"
proof (induction u arbitrary: k rule: digits10.induct)
  case (1 u)
  show ?case
  proof (cases "u < 10")
    case True
    then show ?thesis using 1(2) by (simp add: digits10_small)
  next
    case False
    then obtain j where k: "k = Suc j" and j: "0 < j"
      using 1(2,3) by (cases k; cases "k - 1") auto
    have "u div 10 < 10 ^ j" using 1(3) k by (simp add: less_mult_imp_div_less)
    then have "length (digits10 (u div 10)) \<le> j" using 1(1) [OF False j] by simp
    then show ?thesis using False k by (simp add: digits10_step)
  qed
qed

lemma length_digits10_gt:
  assumes "10 ^ k \<le> u"
  shows "k < length (digits10 u)"
proof -
  have "int u < 10 ^ length (digits10 u)"
    using decimal_value_bounds [OF digits10_digits, of u] by (simp add: decimal_value_digits10)
  then have "u < 10 ^ length (digits10 u)"
    by (metis of_nat_less_iff of_nat_numeral of_nat_power)
  with assms have "(10 :: nat) ^ k < 10 ^ length (digits10 u)" by (rule le_less_trans)
  then show ?thesis by simp
qed


lemma is_digit_zero: "is_digit 0x30"
  by (simp add: is_digit_def)

lemma decimal_value_zeros: "decimal_value (replicate k 0x30 @ s) = decimal_value s"
proof -
  have "foldl (\<lambda>a c. 10 * a + (uint c - 48)) 0 (replicate k (0x30 :: byte)) = 0"
    by (induction k) simp_all
  then show ?thesis by (simp add: decimal_value_def)
qed

lemma zero_pad_digits:
  "list_all is_digit s \<Longrightarrow> list_all is_digit (zero_pad prec s)"
  by (simp add: zero_pad_def is_digit_zero list_all_length nth_append)

lemma decimal_value_zero_pad: "decimal_value (zero_pad prec s) = decimal_value s"
  by (simp add: zero_pad_def decimal_value_zeros)

lemma length_zero_pad: "length (zero_pad prec s) = max prec (length s)"
  by (simp add: zero_pad_def)

lemma Sprintf_04d_nonneg:
  "\<not> a <s 0 \<Longrightarrow> Sprintf_04d a = zero_pad 4 (digits10 (nat (sint a)))"
  by (simp add: Sprintf_04d_def)

lemma Sprintf_04d_digits:
  assumes "\<not> a <s 0"
  shows "list_all is_digit (Sprintf_04d a)" and "decimal_value (Sprintf_04d a) = sint a"
proof -
  have "0 \<le> sint a" using assms by (simp add: word_sless_alt)
  then show "decimal_value (Sprintf_04d a) = sint a"
    by (simp add: Sprintf_04d_nonneg [OF assms] decimal_value_zero_pad decimal_value_digits10)
  show "list_all is_digit (Sprintf_04d a)"
    by (simp add: Sprintf_04d_nonneg [OF assms] zero_pad_digits digits10_digits)
qed

lemma length_Sprintf_04d_small:
  assumes "\<not> a <s 0" and "sint a < 10000"
  shows "length (Sprintf_04d a) = 4"
proof -
  have "nat (sint a) < 10 ^ 4" using assms(2) by simp
  then have "length (digits10 (nat (sint a))) \<le> 4" by (intro length_digits10_le) simp_all
  then show ?thesis by (simp add: Sprintf_04d_nonneg [OF assms(1)] length_zero_pad)
qed

lemma Sprintf_04d_large:
  assumes "10000 \<le> sint a"
  shows "Sprintf_04d a = digits10 (nat (sint a))" and "5 \<le> length (Sprintf_04d a)"
proof -
  have nn: "\<not> a <s 0" using assms by (simp add: word_sless_alt)
  have "10 ^ 4 \<le> nat (sint a)" using assms by simp
  then have len: "4 < length (digits10 (nat (sint a)))" by (rule length_digits10_gt)
  then show "Sprintf_04d a = digits10 (nat (sint a))"
    by (simp add: Sprintf_04d_nonneg [OF nn] zero_pad_def)
  then show "5 \<le> length (Sprintf_04d a)" using len by simp
qed


subsection \<open>Hexadecimal transcoding\<close>

lemma nat_lt16_cases:
  "n < 16 \<Longrightarrow> n = 15 \<or> n = 14 \<or> n = 13 \<or> n = 12 \<or> n = 11 \<or> n = 10 \<or> n = 9
     \<or> n = 8 \<or> n = 7 \<or> n = 6 \<or> n = 5 \<or> n = 4 \<or> n = 3 \<or> n = 2 \<or> n = 1 \<or> n = (0 :: nat)"
  by arith

lemma reverse_udigits:
  assumes "n < 16"
  shows "reverseHexTable (udigits ! n) = of_nat n"
  using nat_lt16_cases [OF assms]
  by (elim disjE) (simp_all add: udigits_def reverseHexTable_def)

lemma nibble_le:
  assumes "n < 16"
  shows "\<not> (of_nat n :: byte) > 0x0f"
  using nat_lt16_cases [OF assms] by (elim disjE) simp_all

lemma unat_high_nibble: "unat (drop_bit 4 (c :: byte)) < 16"
proof -
  have "unat c < 256" using unsigned_less [of c, where 'a = nat] by simp
  then show ?thesis by (simp add: drop_bit_eq_div unat_div_distrib)
qed

lemma unat_low_nibble: "unat ((c :: byte) AND 0x0f) < 16"
proof -
  have "(c AND 0x0f) \<le> 0x0f" by (rule word_and_le1)
  then show ?thesis by (simp add: word_le_nat_alt)
qed

lemma nibbles_join: "push_bit 4 (drop_bit 4 c) OR (c AND 0x0f) = (c :: byte)"
proof -
  have m: "(0x0f :: byte) = mask 4" by (simp add: mask_eq_exp_minus_1)
  show ?thesis
    unfolding m
    by (rule bit_eqI) (auto simp: bit_simps)
qed

lemma DecodeString_Sprintf_X: "DecodeString (Sprintf_X s) = (s, None)"
proof (induction s)
  case Nil
  then show ?case by simp
next
  case (Cons c s)
  let ?h = "drop_bit 4 c" and ?l = "c AND 0x0f"
  have h: "reverseHexTable (udigits ! unat ?h) = ?h"
    using reverse_udigits [OF unat_high_nibble [of c]] by simp
  have l: "reverseHexTable (udigits ! unat ?l) = ?l"
    using reverse_udigits [OF unat_low_nibble [of c]] by simp
  have hle: "\<not> ?h > 0x0f" using nibble_le [OF unat_high_nibble [of c]] by simp
  have lle: "\<not> ?l > 0x0f" using nibble_le [OF unat_low_nibble [of c]] by simp
  show ?case
    using Cons.IH hle lle by (simp add: h l nibbles_join)
qed


subsection \<open>A4E beyond four digits\<close>

lemma Encode_A4E_digits:
  "\<not> L <s 0 \<Longrightarrow> Encode ''A4E'' L = (Sprintf_04d L, None)"
  by (simp add: Encode_A4E DecodeString_Sprintf_X)

lemma Sprintf_04d_10000: "Sprintf_04d 10000 = [0x31, 0x30, 0x30, 0x30, 0x30]"
  by (simp add: Sprintf_04d_def word_sless_alt zero_pad_def digits10_step digits10_small)

lemma Encode_A4E_overlong:
  assumes "10000 \<le>s L"
  shows "Encode ''A4E'' L = (digits10 (nat (sint L)), None)"
    and "5 \<le> length (digits10 (nat (sint L)))"
    and "Decode ''A4E'' (digits10 (nat (sint L))) = (0, Some ErrByteSize)"
proof -
  have L: "10000 \<le> sint L" using assms by (simp add: word_sle_eq)
  then have nn: "\<not> L <s 0" by (simp add: word_sless_alt)
  show "Encode ''A4E'' L = (digits10 (nat (sint L)), None)"
    by (simp only: Encode_A4E_digits [OF nn] Sprintf_04d_large(1) [OF L])
  show len: "5 \<le> length (digits10 (nat (sint L)))"
    using Sprintf_04d_large(2) [OF L] by (simp only: Sprintf_04d_large(1) [OF L])
  then have "length (digits10 (nat (sint L))) \<noteq> 4" by simp
  then show "Decode ''A4E'' (digits10 (nat (sint L))) = (0, Some ErrByteSize)"
    by (rule Decode_size_A4E)
qed

text \<open>
  C7. \<^verbatim>\<open>Encode\<close> with A4E has no test of the range: at the length 10000 it returns no
  error and the five bytes \<^verbatim>\<open>10000\<close>, one more than \<^verbatim>\<open>SizeA4E\<close>, the size the package
  gives for this selector, and \<^verbatim>\<open>Decode\<close> with A4E refuses that buffer with
  \<open>ErrByteSize\<close>. By \<open>Encode_A4E_overlong\<close> the same happens at every length of 10000 or
  more: the buffer is the decimal numeral of the length, without padding.
\<close>

theorem Encode_A4E_10000:
  "10000 \<le>s (10000 :: goint)
   \<and> Encode MLIA4E 10000 = ([0x31, 0x30, 0x30, 0x30, 0x30], None)
   \<and> length [0x31, 0x30, 0x30, 0x30, 0x30 :: byte] \<noteq> SizeA4E
   \<and> Decode MLIA4E [0x31, 0x30, 0x30, 0x30, 0x30] = (0, Some ErrByteSize)"
  by (simp add: Encode_A4E_digits word_sless_alt word_sle_eq Sprintf_04d_10000 Decode_size_A4E)

subsection \<open>Binary-coded decimal\<close>

lemma is_digit_cases:
  assumes "is_digit c"
  shows "c = 0x30 \<or> c = 0x31 \<or> c = 0x32 \<or> c = 0x33 \<or> c = 0x34 \<or> c = 0x35 \<or> c = 0x36
     \<or> c = 0x37 \<or> c = 0x38 \<or> c = 0x39"
proof -
  have "48 \<le> unat c" and "unat c \<le> 57"
    using assms by (simp_all add: is_digit_def word_le_nat_alt)
  then have "unat c = 48 \<or> unat c = 49 \<or> unat c = 50 \<or> unat c = 51 \<or> unat c = 52
     \<or> unat c = 53 \<or> unat c = 54 \<or> unat c = 55 \<or> unat c = 56 \<or> unat c = 57"
    by arith
  then show ?thesis
    by (simp add: word_unat_eq_iff)
qed


lemma reverseHexTable_digit: "is_digit p \<Longrightarrow> reverseHexTable p = p - 0x30"
  by (simp add: reverseHexTable_def is_digit_def)

lemma digit_nibble:
  assumes "is_digit p"
  shows "\<not> p - 0x30 > (0x0f :: byte)"
  using is_digit_cases [OF assms] by (elim disjE) simp_all

lemma DecodeString_digit_pair:
  assumes "is_digit p" and "is_digit q"
  shows "DecodeString (p # q # s) =
     (case DecodeString s of
        (dst, err) \<Rightarrow> ((push_bit 4 (p - 0x30) OR (q - 0x30)) # dst, err))"
  using digit_nibble [OF assms(1)] digit_nibble [OF assms(2)]
  by (simp add: reverseHexTable_digit [OF assms(1)] reverseHexTable_digit [OF assms(2)])

lemma hextable_bcd:
  assumes "is_digit p" and "is_digit q"
  shows "hextable ! unat (drop_bit 4 (push_bit 4 (p - 0x30) OR (q - 0x30))) = p"
    and "hextable ! unat ((push_bit 4 (p - 0x30) OR (q - 0x30)) AND 0x0f) = q"
  using is_digit_cases [OF assms(1)] is_digit_cases [OF assms(2)]
  by (elim disjE; simp add: hextable_def)+


subsection \<open>Round trips, selector by selector\<close>

lemma ucast_ucast16:
  assumes "0 \<le> k" and "k < 2 ^ 16"
  shows "(ucast (ucast (word_of_int k :: goint) :: uint16) :: goint) = word_of_int k"
proof -
  have "uint (ucast (word_of_int k :: goint) :: uint16) = k"
    using assms by (simp add: uint_ucast16_of_int)
  then show ?thesis by (simp only: ucast_eq [of "ucast (word_of_int k :: goint) :: uint16"])
qed

lemma ucast_ucast32:
  assumes "0 \<le> k" and "k < 2 ^ 32"
  shows "(ucast (ucast (word_of_int k :: goint) :: uint32) :: goint) = word_of_int k"
proof -
  have "uint (ucast (word_of_int k :: goint) :: uint32) = k"
    using assms by (simp add: uint_ucast32_of_int)
  then show ?thesis by (simp only: ucast_eq [of "ucast (word_of_int k :: goint) :: uint32"])
qed

lemma word_of_int_eq_0_goint:
  assumes "- (2 ^ 63) \<le> k" and "k < 2 ^ 63"
  shows "(word_of_int k :: goint) = 0 \<longleftrightarrow> k = 0"
  using sint_word_of_int_goint [OF assms] sint_eq_0_goint [of "word_of_int k"] by simp

lemma decode_inclusive_step:
  fixes L :: goint
  assumes "0 \<le> sint L" and "0 < w" and "sint L + w < 2 ^ 32"
  shows "L + word_of_int w \<noteq> 0" and "L + word_of_int w - word_of_int w = L"
    and "\<not> L <s 0"
proof -
  have "- (2 ^ 63) \<le> sint L + w" using assms by simp
  moreover have "sint L + w < 2 ^ 63" using assms(3) by simp
  ultimately have "(word_of_int (sint L + w) :: goint) = 0 \<longleftrightarrow> sint L + w = 0"
    by (rule word_of_int_eq_0_goint)
  then show "L + word_of_int w \<noteq> 0" using assms(1,2) by (simp only: goint_plus_int)
  show "L + word_of_int w - word_of_int w = L" by simp
  show "\<not> L <s 0" using assms(1) by (simp add: word_sless_alt)
qed

lemma roundtrip_2I:
  assumes "0 \<le> sint L" and "sint L + 2 < 2 ^ 16"
  shows "Decode ''2I'' (PutUint16 (ucast (L + 2))) = (L, None)"
proof -
  have k: "0 \<le> sint L + 2" using assms(1) by simp
  have "L + 2 = word_of_int (sint L + 2)" using goint_plus_int [of L 2] by simp
  then have n: "(ucast (ucast (L + 2) :: uint16) :: goint) = L + 2"
    using ucast_ucast16 [OF k assms(2)] by simp
  have nz: "L + 2 \<noteq> 0" and nn: "\<not> L <s 0"
    using decode_inclusive_step [of L 2] assms by simp_all
  show ?thesis
    using nz nn by (simp add: Decode_2I length_PutUint16 Uint16_PutUint16 n)
qed

lemma roundtrip_4I:
  assumes "0 \<le> sint L" and "sint L + 4 < 2 ^ 32"
  shows "Decode ''4I'' (PutUint32 (ucast (L + 4))) = (L, None)"
proof -
  have k: "0 \<le> sint L + 4" using assms(1) by simp
  have "L + 4 = word_of_int (sint L + 4)" using goint_plus_int [of L 4] by simp
  then have n: "(ucast (ucast (L + 4) :: uint32) :: goint) = L + 4"
    using ucast_ucast32 [OF k assms(2)] by simp
  have nz: "L + 4 \<noteq> 0" and nn: "\<not> L <s 0"
    using decode_inclusive_step [of L 4] assms by simp_all
  show ?thesis
    using nz nn by (simp add: Decode_4I length_PutUint32 Uint32_PutUint32 n)
qed

lemma roundtrip_2E:
  assumes "0 \<le> sint L" and "sint L < 2 ^ 16"
  shows "Decode ''2E'' (PutUint16 (ucast L)) = (L, None)"
  using ucast_ucast16 [OF assms]
  by (simp add: Decode_2E length_PutUint16 Uint16_PutUint16)

lemma roundtrip_4E:
  assumes "0 \<le> sint L" and "sint L < 2 ^ 32"
  shows "Decode ''4E'' (PutUint32 (ucast L)) = (L, None)"
  using ucast_ucast32 [OF assms]
  by (simp add: Decode_4E length_PutUint32 Uint32_PutUint32)

lemma roundtrip_2EE:
  assumes "2 \<le> sint L" and "sint L - 2 < 2 ^ 16"
  shows "Decode ''2EE'' (PutUint16 (ucast (L - 2))) = (L, None)"
proof -
  have k: "0 \<le> sint L - 2" using assms(1) by simp
  have "L - 2 = word_of_int (sint L - 2)" using goint_minus_int [of L 2] by simp
  then have n: "(ucast (ucast (L - 2) :: uint16) :: goint) = L - 2"
    using ucast_ucast16 [OF k assms(2)] by simp
  show ?thesis
    by (simp add: Decode_2EE length_PutUint16 Uint16_PutUint16 n)
qed


lemma digit_not_sign: "is_digit p \<Longrightarrow> p \<noteq> 0x2d \<and> p \<noteq> 0x2b"
  by (auto simp: is_digit_def)

lemma Atoi_four_digits:
  assumes "length s = 4" and "list_all is_digit s"
  shows "Atoi s = (word_of_int (decimal_value s), None)"
proof -
  have "is_digit (hd s)" using assms by (cases s) auto
  then have "hd s \<noteq> 0x2d" and "hd s \<noteq> 0x2b" using digit_not_sign by blast+
  then show ?thesis
    by (simp add: Atoi4_unsigned [OF assms(1)] atoi_loop_value [OF assms(2)])
qed

lemma Encode_2BCD2_in_range:
  assumes "0 \<le> sint L" and "sint L + 4 < 10 ^ 4"
  shows "\<exists>b. Encode ''2BCD2'' L = (b, None) \<and> length b = 4 \<and> Decode ''2BCD2'' b = (L, None)"
proof -
  have nn: "\<not> L <s 0" using assms(1) by (simp add: word_sless_alt)
  have L4: "L + 4 = word_of_int (sint L + 4)" using goint_plus_int [of L 4] by simp
  have s4: "sint (L + 4) = sint L + 4"
    unfolding L4 using assms by (intro sint_word_of_int_goint) simp_all
  have nn4: "\<not> L + 4 <s 0" using assms(1) by (simp add: word_sless_alt s4)
  define s where "s = Sprintf_04d (L + 4)"
  have len: "length s = 4"
    unfolding s_def using assms(2) by (intro length_Sprintf_04d_small nn4) (simp add: s4)
  have dig: "list_all is_digit s" unfolding s_def by (rule Sprintf_04d_digits(1) [OF nn4])
  have val: "decimal_value s = sint L + 4"
    unfolding s_def by (simp add: Sprintf_04d_digits(2) [OF nn4] s4)
  obtain p q r t where s: "s = [p, q, r, t]" using length4E [OF len] by blast
  have d: "is_digit p" "is_digit q" "is_digit r" "is_digit t" using dig by (simp_all add: s)
  let ?b = "[0, 0, push_bit 4 (p - 0x30) OR (q - 0x30), push_bit 4 (r - 0x30) OR (t - 0x30)]"
  have "DecodeString s = (drop 2 ?b, None)"
    by (simp add: s DecodeString_digit_pair d del: DecodeString.simps(1))
  then have enc: "Encode ''2BCD2'' L = (?b, None)"
    by (simp add: Encode_2BCD2 [OF nn] s_def [symmetric])
  have td: "take 2 (drop 2 ?b)
      = [push_bit 4 (p - 0x30) OR (q - 0x30), push_bit 4 (r - 0x30) OR (t - 0x30)]"
    by simp
  have "EncodeToString (take 2 (drop 2 ?b)) = s"
    unfolding td s
    by (simp only: EncodeToString.simps hextable_bcd [OF d(1,2)] hextable_bcd [OF d(3,4)])
  then have "Atoi (EncodeToString (take 2 (drop 2 ?b))) = (L + 4, None)"
    by (simp only: Atoi_four_digits [OF len dig] val L4)
  moreover have "L + 4 \<noteq> 0" and "L + 4 - 4 = L"
    using decode_inclusive_step [of L 4] assms by simp_all
  ultimately have dec: "Decode ''2BCD2'' ?b = (L, None)"
    using nn by (simp add: Decode_2BCD2)
  show ?thesis using enc dec by (intro exI [of _ ?b]) simp
qed

lemma Encode_A4E_in_range:
  assumes "0 \<le> sint L" and "sint L < 10 ^ 4"
  shows "\<exists>b. Encode ''A4E'' L = (b, None) \<and> length b = 4 \<and> Decode ''A4E'' b = (L, None)"
proof -
  have nn: "\<not> L <s 0" using assms(1) by (simp add: word_sless_alt)
  define s where "s = Sprintf_04d L"
  have len: "length s = 4"
    unfolding s_def using assms(2) by (intro length_Sprintf_04d_small nn) simp
  have dig: "list_all is_digit s" unfolding s_def by (rule Sprintf_04d_digits(1) [OF nn])
  have val: "word_of_int (decimal_value s) = L"
    unfolding s_def by (simp add: Sprintf_04d_digits(2) [OF nn])
  have enc: "Encode ''A4E'' L = (s, None)" by (simp add: Encode_A4E_digits [OF nn] s_def)
  have dec: "Decode ''A4E'' s = (L, None)"
  proof (cases "s = [0x30, 0x30, 0x30, 0x30]")
    case True
    then have "decimal_value s = 0" by (simp add: decimal_value_def)
    then have "L = 0" using val by simp
    then show ?thesis using True by (simp add: Decode_A4E Count_def)
  next
    case False
    have "is_digit (hd s)" using len dig by (cases s) auto
    then have "hd s \<noteq> 0x2d" and "hd s \<noteq> 0x2b" using digit_not_sign by blast+
    then show ?thesis
      by (simp add: Decode_A4E_unsigned [OF len False] dig val)
  qed
  show ?thesis using enc dec len by (intro exI [of _ s]) simp
qed


subsection \<open>Fixed width and round trip\<close>

lemma in_range_cases:
  assumes "in_range key L"
  shows "key = ''2I'' \<and> 0 \<le> sint L \<and> sint L + 2 < 2 ^ 16
     \<or> key = ''2E'' \<and> 0 \<le> sint L \<and> sint L < 2 ^ 16
     \<or> key = ''4I'' \<and> 0 \<le> sint L \<and> sint L + 4 < 2 ^ 32
     \<or> key = ''4E'' \<and> 0 \<le> sint L \<and> sint L < 2 ^ 32
     \<or> key = ''2EE'' \<and> 2 \<le> sint L \<and> sint L - 2 < 2 ^ 16
     \<or> key = ''2BCD2'' \<and> 0 \<le> sint L \<and> sint L + 4 < 10 ^ 4
     \<or> key = ''A4E'' \<and> 0 \<le> sint L \<and> sint L < 10 ^ 4"
  using assms unfolding in_range_def
  by (simp split: if_splits)

lemma in_range_nonneg: "in_range key L \<Longrightarrow> \<not> L <s 0"
  using in_range_cases [of key L] by (auto simp: word_sless_alt)

text \<open>
  C8. For each of the seven selectors and every length in its representable range,
  \<^verbatim>\<open>Encode\<close> returns no error and a buffer whose length is the width of the selector:
  2 bytes for 2I, 2E and 2EE, 4 bytes for 4I, 4E, 2BCD2 and A4E.
\<close>

theorem Encode_fixed_width:
  assumes "in_range key L"
  shows "\<exists>b. Encode key L = (b, None) \<and> length b = width key"
proof -
  have nn: "\<not> L <s 0" using assms by (rule in_range_nonneg)
  from in_range_cases [OF assms] show ?thesis
  proof (elim disjE conjE)
    assume "key = ''2I''"
    then show ?thesis by (simp add: Encode_2I [OF nn] length_PutUint16 width_simps)
  next
    assume "key = ''2E''"
    then show ?thesis by (simp add: Encode_2E [OF nn] length_PutUint16 width_simps)
  next
    assume "key = ''4I''"
    then show ?thesis by (simp add: Encode_4I [OF nn] length_PutUint32 width_simps)
  next
    assume "key = ''4E''"
    then show ?thesis by (simp add: Encode_4E [OF nn] length_PutUint32 width_simps)
  next
    assume "key = ''2EE''"
    then show ?thesis by (simp add: Encode_2EE [OF nn] length_PutUint16 width_simps)
  next
    assume "key = ''2BCD2''" and "0 \<le> sint L" and "sint L + 4 < 10 ^ 4"
    then show ?thesis using Encode_2BCD2_in_range [of L] by (auto simp: width_simps)
  next
    assume "key = ''A4E''" and "0 \<le> sint L" and "sint L < 10 ^ 4"
    then show ?thesis using Encode_A4E_in_range [of L] by (auto simp: width_simps)
  qed
qed

theorem Encode_fixed_width_witness:
  "in_range MLI2I 43 \<and> (\<exists>b. Encode MLI2I 43 = (b, None) \<and> length b = width MLI2I)
   \<and> in_range MLI2BCD2 284 \<and> (\<exists>b. Encode MLI2BCD2 284 = (b, None) \<and> length b = width MLI2BCD2)
   \<and> in_range MLIA4E 9999 \<and> (\<exists>b. Encode MLIA4E 9999 = (b, None) \<and> length b = width MLIA4E)"
  using Encode_fixed_width [of MLI2I 43] Encode_fixed_width [of MLI2BCD2 284]
    Encode_fixed_width [of MLIA4E 9999]
  by (simp add: in_range_def)

text \<open>
  C1. For each of the seven selectors and every length in its representable range,
  \<^verbatim>\<open>Encode\<close> returns no error, and \<^verbatim>\<open>Decode\<close> with the same selector on the buffer it
  returns gives the length back with no error.
\<close>

theorem Decode_Encode_round_trip:
  assumes "in_range key L"
  shows "\<exists>b. Encode key L = (b, None) \<and> Decode key b = (L, None)"
proof -
  have nn: "\<not> L <s 0" using assms by (rule in_range_nonneg)
  from in_range_cases [OF assms] show ?thesis
  proof (elim disjE conjE)
    assume "key = ''2I''" and "0 \<le> sint L" and "sint L + 2 < 2 ^ 16"
    then show ?thesis by (simp add: Encode_2I [OF nn] roundtrip_2I)
  next
    assume "key = ''2E''" and "0 \<le> sint L" and "sint L < 2 ^ 16"
    then show ?thesis by (simp add: Encode_2E [OF nn] roundtrip_2E)
  next
    assume "key = ''4I''" and "0 \<le> sint L" and "sint L + 4 < 2 ^ 32"
    then show ?thesis by (simp add: Encode_4I [OF nn] roundtrip_4I)
  next
    assume "key = ''4E''" and "0 \<le> sint L" and "sint L < 2 ^ 32"
    then show ?thesis by (simp add: Encode_4E [OF nn] roundtrip_4E)
  next
    assume "key = ''2EE''" and "2 \<le> sint L" and "sint L - 2 < 2 ^ 16"
    then show ?thesis by (simp add: Encode_2EE [OF nn] roundtrip_2EE)
  next
    assume "key = ''2BCD2''" and "0 \<le> sint L" and "sint L + 4 < 10 ^ 4"
    then show ?thesis using Encode_2BCD2_in_range [of L] by auto
  next
    assume "key = ''A4E''" and "0 \<le> sint L" and "sint L < 10 ^ 4"
    then show ?thesis using Encode_A4E_in_range [of L] by auto
  qed
qed


theorem Decode_Encode_round_trip_witness:
  "in_range MLI2I 43 \<and> (\<exists>b. Encode MLI2I 43 = (b, None) \<and> Decode MLI2I b = (43, None))
   \<and> in_range MLI4E 34 \<and> (\<exists>b. Encode MLI4E 34 = (b, None) \<and> Decode MLI4E b = (34, None))
   \<and> in_range MLI2EE 56 \<and> (\<exists>b. Encode MLI2EE 56 = (b, None) \<and> Decode MLI2EE b = (56, None))
   \<and> in_range MLI2BCD2 284
   \<and> (\<exists>b. Encode MLI2BCD2 284 = (b, None) \<and> Decode MLI2BCD2 b = (284, None))
   \<and> in_range MLIA4E 0 \<and> (\<exists>b. Encode MLIA4E 0 = (b, None) \<and> Decode MLIA4E b = (0, None))"
  using Decode_Encode_round_trip [of MLI2I 43] Decode_Encode_round_trip [of MLI4E 34]
    Decode_Encode_round_trip [of MLI2EE 56] Decode_Encode_round_trip [of MLI2BCD2 284]
    Decode_Encode_round_trip [of MLIA4E 0]
  by (simp add: in_range_def)

subsection \<open>The scenarios of the test file\<close>

lemma scenario_1: "Encode ''2I'' 43 = ([0x00, 0x2d], None)"
  and scenario_2: "Encode ''4I'' 49 = ([0x00, 0x00, 0x00, 0x35], None)"
  and scenario_3: "Encode ''2EE'' 56 = ([0x00, 0x36], None)"
  by (simp_all add: Encode_def PutUint16_def PutUint32_def word_sless_alt)

lemma scenario_4: "Encode ''2BCD2'' 284 = ([0x00, 0x00, 0x02, 0x88], None)"
  by (simp add: Encode_2BCD2 word_sless_alt Sprintf_04d_def zero_pad_def digits10_step
      digits10_small reverseHexTable_def)

lemma scenario_5: "Encode ''A4E'' 43 = ([0x30, 0x30, 0x34, 0x33], None)"
  by (simp add: Encode_A4E_digits word_sless_alt Sprintf_04d_def zero_pad_def digits10_step
      digits10_small numeral_2_eq_2)

lemma scenario_decode:
  "Decode ''2I'' [0x00, 0x2d] = (43, None)"
  "Decode ''2EE'' [0x00, 0x36] = (56, None)"
  by (simp_all add: Decode_2I Decode_2EE Uint16_def word_sless_alt)

lemma scenario_decode_2BCD2: "Decode ''2BCD2'' [0x00, 0x00, 0x02, 0x88] = (284, None)"
  by (simp add: Decode_2BCD2 hextable_def Atoi_def word_sless_alt)

lemma scenario_decode_A4E: "Decode ''A4E'' [0x30, 0x30, 0x34, 0x33] = (43, None)"
  by (simp add: Decode_A4E Count_def Atoi_def)

end
